theory Spec2Isabelle
  imports Complex_Main
begin

section \<open>Python values, as far as the validator looks at them\<close>

text \<open>
  The validator of \<^verbatim>\<open>validateJSON/__init__.py\<close> walks a parsed JSON object together
  with a schema. A parsed JSON value is \<^verbatim>\<open>None\<close>, a \<^verbatim>\<open>bool\<close>, an
  \<^verbatim>\<open>int\<close>, a \<^verbatim>\<open>float\<close>, a \<^verbatim>\<open>str\<close>, a \<^verbatim>\<open>list\<close>
  or a \<^verbatim>\<open>dict\<close> with string keys. A dict is an association list in insertion order;
  a lookup takes the first entry of a key (a Python dict holds every key once). A finite
  float is its exact rational value; \<^verbatim>\<open>nan\<close> and the infinities are left out.
\<close>

datatype pyval =
    PNone
  | PBool bool
  | PInt int
  | PFloat rat
  | PStr string
  | PList "pyval list"
  | PDict "(string \<times> pyval) list"

text \<open>
  The schema's \<^verbatim>\<open>param_type\<close> is a Python class, used by \<^verbatim>\<open>isinstance\<close>
  and compared with \<^verbatim>\<open>dict\<close>. In Python \<^verbatim>\<open>bool\<close> is a subclass of
  \<^verbatim>\<open>int\<close>, so \<^verbatim>\<open>isinstance(True, int)\<close> holds.
\<close>

datatype pytype = TNone | TBool | TInt | TFloat | TStr | TList | TDict

text \<open>The exceptions the validator can raise: a failed subscript, an unhashable key.\<close>

datatype error = KeyError | TypeError

fun isinstance :: "pyval \<Rightarrow> pytype \<Rightarrow> bool" where
  "isinstance PNone t = (t = TNone)"
| "isinstance (PBool b) t = (t = TBool \<or> t = TInt)"
| "isinstance (PInt i) t = (t = TInt)"
| "isinstance (PFloat r) t = (t = TFloat)"
| "isinstance (PStr s) t = (t = TStr)"
| "isinstance (PList xs) t = (t = TList)"
| "isinstance (PDict d) t = (t = TDict)"

text \<open>
  Python's \<^verbatim>\<open>==\<close>, as \<^verbatim>\<open>in\<close> and dict lookup use it: numbers compare by
  value across \<^verbatim>\<open>bool\<close>, \<^verbatim>\<open>int\<close> and \<^verbatim>\<open>float\<close>, lists
  elementwise, dicts as unordered mappings.
\<close>

fun num_val :: "pyval \<Rightarrow> rat option" where
  "num_val (PBool b) = Some (if b then 1 else 0)"
| "num_val (PInt i) = Some (of_int i)"
| "num_val (PFloat r) = Some r"
| "num_val v = None"

fun py_eq :: "pyval \<Rightarrow> pyval \<Rightarrow> bool"
  and py_eq_list :: "pyval list \<Rightarrow> pyval list \<Rightarrow> bool"
  and py_eq_items :: "(string \<times> pyval) list \<Rightarrow> (string \<times> pyval) list \<Rightarrow> bool" where
  "py_eq PNone y = (y = PNone)"
| "py_eq (PBool b) y = (num_val y = Some (if b then 1 else 0))"
| "py_eq (PInt i) y = (num_val y = Some (of_int i))"
| "py_eq (PFloat r) y = (num_val y = Some r)"
| "py_eq (PStr s) y = (y = PStr s)"
| "py_eq (PList xs) y = (case y of PList ys \<Rightarrow> py_eq_list xs ys | _ \<Rightarrow> False)"
| "py_eq (PDict d) y =
     (case y of
        PDict e \<Rightarrow> set (map fst d) = set (map fst e) \<and> py_eq_items d e
      | _ \<Rightarrow> False)"
| "py_eq_list [] ys = (ys = [])"
| "py_eq_list (x # xs) ys = (case ys of [] \<Rightarrow> False | y # ys' \<Rightarrow> py_eq x y \<and> py_eq_list xs ys')"
| "py_eq_items [] e = True"
| "py_eq_items ((k, v) # d) e =
     ((case map_of e k of None \<Rightarrow> False | Some w \<Rightarrow> py_eq v w) \<and> py_eq_items d e)"

section \<open>The schema\<close>

text \<open>
  A key descriptor is a Python dict with the entries \<^verbatim>\<open>"param_name"\<close> and
  \<^verbatim>\<open>"param_type"\<close> and, optionally, \<^verbatim>\<open>"possible_values"\<close>,
  \<^verbatim>\<open>"expected_keys"\<close>, \<^verbatim>\<open>"optional_keys"\<close> and
  \<^verbatim>\<open>"conditional_keys"\<close>; an optional entry that is absent is \<open>None\<close> here.
  \<^verbatim>\<open>"conditional_keys"\<close> holds \<^verbatim>\<open>"depends_on"\<close> and
  \<^verbatim>\<open>"dependence_info"\<close>, a dict from the values of the key depended on to a
  branch with \<^verbatim>\<open>"expected_keys"\<close> and \<^verbatim>\<open>"optional_keys"\<close>.
\<close>

datatype descriptor =
  Descriptor
    (param_name: string)
    (param_type: pytype)
    (possible_values: "pyval list option")
    (expected_keys: "descriptor list option")
    (optional_keys: "descriptor list option")
    (conditional_keys: "conditional option")
and conditional =
  Conditional
    (depends_on: string)
    (dependence_info: "(pyval \<times> branch) list")
and branch =
  Branch
    (branch_expected_keys: "descriptor list option")
    (branch_optional_keys: "descriptor list option")


section \<open>Subscripts and membership\<close>

text \<open>
  \<^verbatim>\<open>k in json_object\<close> and \<^verbatim>\<open>json_object[k]\<close>; the subscript raises
  \<^verbatim>\<open>KeyError\<close> on a missing key. \<^verbatim>\<open>v in possible_values\<close> compares with
  \<^verbatim>\<open>==\<close>. A subscript of \<^verbatim>\<open>dependence_info\<close> by a list or a dict raises
  \<^verbatim>\<open>TypeError\<close> (unhashable), by a value without entry \<^verbatim>\<open>KeyError\<close>.
\<close>

type_synonym mapping = "(string \<times> pyval) list"

definition contains :: "mapping \<Rightarrow> string \<Rightarrow> bool" where
  "contains json_object k = (k \<in> set (map fst json_object))"

definition getitem :: "mapping \<Rightarrow> string \<Rightarrow> error + pyval" where
  "getitem json_object k =
     (case map_of json_object k of None \<Rightarrow> Inl KeyError | Some v \<Rightarrow> Inr v)"

definition py_in :: "pyval \<Rightarrow> pyval list \<Rightarrow> bool" where
  "py_in v vs = list_ex (\<lambda>w. py_eq v w) vs"

fun hashable :: "pyval \<Rightarrow> bool" where
  "hashable (PList xs) = False"
| "hashable (PDict d) = False"
| "hashable v = True"

definition getitem_val :: "(pyval \<times> 'b) list \<Rightarrow> pyval \<Rightarrow> error + 'b" where
  "getitem_val d k =
     (if \<not> hashable k then Inl TypeError
      else case find (\<lambda>(k', b). py_eq k' k) d of
             None \<Rightarrow> Inl KeyError
           | Some (k', b) \<Rightarrow> Inr b)"

text \<open>
  The nested calls pass \<^verbatim>\<open>json_object[name]\<close> on as the new
  \<^verbatim>\<open>json_object\<close>. They are made only after \<^verbatim>\<open>isinstance\<close> has found
  the value to be a dict; any other value is an error here.
\<close>

definition as_mapping :: "pyval \<Rightarrow> error + mapping" where
  "as_mapping v = (case v of PDict d \<Rightarrow> Inr d | _ \<Rightarrow> Inl TypeError)"

section \<open>The three validation methods\<close>

text \<open>
  Lines 87 to 111 of the source: the two list comprehensions of
  \<^verbatim>\<open>validate_expected\<close>. The second one subscripts \<^verbatim>\<open>json_object\<close>
  and would raise on a missing key.
\<close>

definition contains_params :: "mapping \<Rightarrow> descriptor list \<Rightarrow> bool list" where
  "contains_params json_object exp_keys =
     map (\<lambda>parameter. contains json_object parameter) (map param_name exp_keys)"

fun correct_types :: "mapping \<Rightarrow> descriptor list \<Rightarrow> error + bool list" where
  "correct_types json_object [] = Inr []"
| "correct_types json_object (expected_key # rest) =
     (case getitem json_object (param_name expected_key) of
        Inl e \<Rightarrow> Inl e
      | Inr v \<Rightarrow>
          (case correct_types json_object rest of
             Inl e \<Rightarrow> Inl e
           | Inr bs \<Rightarrow> Inr (isinstance v (param_type expected_key) # bs)))"

text \<open>Lines 216 to 227: the legal key names and the membership test of every data key.\<close>

definition valid_keys :: "descriptor list \<Rightarrow> descriptor list option \<Rightarrow> string list" where
  "valid_keys exp_keys opt_keys =
     (case opt_keys of
        Some oks \<Rightarrow> map param_name exp_keys @ map param_name oks
      | None \<Rightarrow> map param_name exp_keys)"

definition contains_valid :: "mapping \<Rightarrow> string list \<Rightarrow> bool list" where
  "contains_valid json_object vks =
     map (\<lambda>parameter. parameter \<in> set vks) (map fst json_object)"

text \<open>Lines 124 to 130: the \<^verbatim>\<open>possible_values\<close> check of one descriptor.\<close>

definition value_permitted :: "mapping \<Rightarrow> descriptor \<Rightarrow> error + bool" where
  "value_permitted json_object expected_key =
     (case possible_values expected_key of
        None \<Rightarrow> Inr True
      | Some pvs \<Rightarrow>
          (case getitem json_object (param_name expected_key) of
             Inl e \<Rightarrow> Inl e
           | Inr v \<Rightarrow> Inr (py_in v pvs)))"

text \<open>
  Lines 146 to 150: the value depended on is read from the enclosing object, then the
  branch and its two lists are subscripted, \<^verbatim>\<open>"optional_keys"\<close> first.
\<close>

definition select_branch ::
  "mapping \<Rightarrow> conditional \<Rightarrow> error + (descriptor list \<times> descriptor list)" where
  "select_branch json_object c =
     (case getitem json_object (depends_on c) of
        Inl e \<Rightarrow> Inl e
      | Inr depends_on_val \<Rightarrow>
          (case getitem_val (dependence_info c) depends_on_val of
             Inl e \<Rightarrow> Inl e
           | Inr br \<Rightarrow>
               (case branch_optional_keys br of
                  None \<Rightarrow> Inl KeyError
                | Some nested_optional_keys \<Rightarrow>
                    (case branch_expected_keys br of
                       None \<Rightarrow> Inl KeyError
                     | Some nested_expected_keys \<Rightarrow>
                         Inr (nested_expected_keys, nested_optional_keys)))))"

text \<open>The recursion descends into the schema; its size is the termination measure.\<close>

definition schema_size :: "descriptor list \<Rightarrow> nat" where
  "schema_size ks = size_list size ks"

lemma schema_size_simps [simp]:
  "schema_size [] = 0"
  "schema_size (k # ks) = Suc (size k + schema_size ks)"
  by (simp_all add: schema_size_def)

lemma optional_keys_smaller:
  "optional_keys k = Some nested \<Longrightarrow> schema_size nested < size k"
  by (cases k) (simp add: schema_size_def)

lemma expected_keys_smaller:
  "expected_keys k = Some nested \<Longrightarrow> schema_size nested < size k"
  by (cases k) (simp add: schema_size_def)

text \<open>
  \<^verbatim>\<open>validate_optional\<close>, lines 179 to 205. The \<^verbatim>\<open>for\<close> loop is the
  recursion over the descriptor list; line 199 returns the verdict of the nested call.
\<close>

function validate_optional :: "mapping \<Rightarrow> descriptor list \<Rightarrow> error + bool" where
  "validate_optional json_object [] = Inr True"
| "validate_optional json_object (optional_key # rest) =
     (if contains json_object (param_name optional_key) then
        (case getitem json_object (param_name optional_key) of
           Inl e \<Rightarrow> Inl e
         | Inr v \<Rightarrow>
             if \<not> isinstance v (param_type optional_key) then Inr False
             else if param_type optional_key = TDict then
               (case optional_keys optional_key of
                  Some nested \<Rightarrow>
                    (case as_mapping v of
                       Inl e \<Rightarrow> Inl e
                     | Inr d \<Rightarrow> validate_optional d nested)
                | None \<Rightarrow> validate_optional json_object rest)
             else validate_optional json_object rest)
      else validate_optional json_object rest)"
  by pat_completeness auto
termination
  by (relation "measure (\<lambda>(j, ks). schema_size ks)")
     (auto dest: optional_keys_smaller)


lemma find_Some_in_set: "find P xs = Some x \<Longrightarrow> x \<in> set xs"
  by (induction xs) (auto split: if_splits)

lemma getitem_val_in_set:
  "getitem_val d k = Inr b \<Longrightarrow> \<exists>k'. (k', b) \<in> set d"
proof -
  assume "getitem_val d k = Inr b"
  then obtain k' where "find (\<lambda>(k', b). py_eq k' k) d = Some (k', b)"
    by (auto simp: getitem_val_def split: if_splits option.splits)
  then have "(k', b) \<in> set d"
    by (rule find_Some_in_set)
  then show ?thesis ..
qed

lemma branch_in_set_smaller:
  "(k', br) \<in> set d \<Longrightarrow> size br < Suc (size_list (size_prod (\<lambda>_. 0) size) d)"
  by (induction d) auto

lemma branch_smaller:
  assumes "branch_expected_keys br = Some ne" "branch_optional_keys br = Some no"
  shows "schema_size ne + schema_size no < size br"
  using assms by (cases br) (simp add: schema_size_def)

lemma select_branch_smaller:
  assumes "conditional_keys k = Some c" "select_branch j c = Inr (ne, no)"
  shows "schema_size ne + schema_size no < size k"
proof -
  from assms(2) obtain dv br where
    br: "getitem_val (dependence_info c) dv = Inr br"
      "branch_expected_keys br = Some ne" "branch_optional_keys br = Some no"
    by (auto simp: select_branch_def split: sum.splits option.splits)
  from getitem_val_in_set [OF br(1)]
  obtain k' where "(k', br) \<in> set (dependence_info c)" ..
  then have "size br < size c"
    using branch_in_set_smaller by (cases c) fastforce
  moreover have "size c < size k"
    using assms(1) by (cases k) simp
  ultimately show ?thesis
    using branch_smaller [OF br(2,3)] by simp
qed

text \<open>
  \<^verbatim>\<open>validate_expected\<close> (lines 87 to 158) and \<^verbatim>\<open>validate\<close> (lines 215
  to 250) call each other. \<open>expected_loop\<close> is the \<^verbatim>\<open>for\<close> loop of lines
  121 to 158 and \<open>expected_step\<close> its body: \<open>Inr (Some b)\<close> when the body returns
  \<open>b\<close>, \<open>Inr None\<close> when it falls through to the next descriptor.
\<close>

function validate_expected :: "mapping \<Rightarrow> descriptor list \<Rightarrow> error + bool"
  and expected_loop :: "mapping \<Rightarrow> descriptor list \<Rightarrow> error + bool"
  and expected_step :: "mapping \<Rightarrow> descriptor \<Rightarrow> error + bool option"
  and validate :: "mapping \<Rightarrow> descriptor list \<Rightarrow> descriptor list option \<Rightarrow> error + bool"
where
  "validate_expected json_object exp_keys =
     (if \<not> list_all id (contains_params json_object exp_keys) then Inr False
      else
        (case correct_types json_object exp_keys of
           Inl e \<Rightarrow> Inl e
         | Inr cts \<Rightarrow>
             if \<not> list_all id cts then Inr False
             else expected_loop json_object exp_keys))"
| "expected_loop json_object [] = Inr True"
| "expected_loop json_object (expected_key # rest) =
     (case expected_step json_object expected_key of
        Inl e \<Rightarrow> Inl e
      | Inr (Some verdict) \<Rightarrow> Inr verdict
      | Inr None \<Rightarrow> expected_loop json_object rest)"
| "expected_step json_object expected_key =
     (case value_permitted json_object expected_key of
        Inl e \<Rightarrow> Inl e
      | Inr permitted \<Rightarrow>
          if \<not> permitted then Inr (Some False)
          else if param_type expected_key = TDict then
            (case (case expected_keys expected_key of
                     None \<Rightarrow> Inr True
                   | Some nested \<Rightarrow>
                       (case getitem json_object (param_name expected_key) of
                          Inl e \<Rightarrow> Inl e
                        | Inr v \<Rightarrow>
                            (case as_mapping v of
                               Inl e \<Rightarrow> Inl e
                             | Inr d \<Rightarrow> validate_expected d nested))) of
               Inl e \<Rightarrow> Inl e
             | Inr nested_ok \<Rightarrow>
                 if \<not> nested_ok then Inr (Some False)
                 else
                   (case conditional_keys expected_key of
                      None \<Rightarrow> Inr None
                    | Some c \<Rightarrow>
                        (case select_branch json_object c of
                           Inl e \<Rightarrow> Inl e
                         | Inr (nested_expected_keys, nested_optional_keys) \<Rightarrow>
                             (case getitem json_object (param_name expected_key) of
                                Inl e \<Rightarrow> Inl e
                              | Inr v \<Rightarrow>
                                  (case as_mapping v of
                                     Inl e \<Rightarrow> Inl e
                                   | Inr d \<Rightarrow>
                                       (case validate d nested_expected_keys
                                               (Some nested_optional_keys) of
                                          Inl e \<Rightarrow> Inl e
                                        | Inr verdict \<Rightarrow> Inr (Some verdict)))))))
          else Inr None)"
| "validate json_object exp_keys opt_keys =
     (if \<not> list_all id (contains_valid json_object (valid_keys exp_keys opt_keys))
      then Inr False
      else
        (case validate_expected json_object exp_keys of
           Inl e \<Rightarrow> Inl e
         | Inr expected_ok \<Rightarrow>
             if expected_ok then
               (case opt_keys of
                  Some oks \<Rightarrow>
                    (case validate_optional json_object oks of
                       Inl e \<Rightarrow> Inl e
                     | Inr optional_ok \<Rightarrow> if optional_ok then Inr True else Inr False)
                | None \<Rightarrow> Inr True)
             else Inr False))"
  by pat_completeness auto
termination
  apply (relation "inv_image (less_than <*lex*> less_than)
     (\<lambda>x. case x of
        Inl (Inl (j, ks)) \<Rightarrow> (schema_size ks, 2::nat)
      | Inl (Inr (j, ks)) \<Rightarrow> (schema_size ks, 1)
      | Inr (Inl (j, k)) \<Rightarrow> (size k, 0)
      | Inr (Inr (j, ks, oks)) \<Rightarrow>
          (schema_size ks + (case oks of None \<Rightarrow> 0 | Some os \<Rightarrow> schema_size os), 3))")
  apply (auto dest: expected_keys_smaller select_branch_smaller)
  done


declare validate_expected.simps [simp del] expected_loop.simps [simp del]
  expected_step.simps [simp del] validate.simps [simp del]


section \<open>Reaching a descriptor\<close>

text \<open>
  The loop of \<^verbatim>\<open>validate_expected\<close> gets to a descriptor when both comprehensions
  were all true (\<open>checks_pass\<close>) and the loop body fell through for every descriptor
  before it (\<open>falls_through\<close>): none returned a verdict and none raised.
\<close>

definition checks_pass :: "mapping \<Rightarrow> descriptor list \<Rightarrow> bool" where
  "checks_pass json_object exp_keys =
     (list_all id (contains_params json_object exp_keys) \<and>
      (case correct_types json_object exp_keys of
         Inl e \<Rightarrow> False
       | Inr cts \<Rightarrow> list_all id cts))"

definition falls_through :: "mapping \<Rightarrow> descriptor list \<Rightarrow> bool" where
  "falls_through json_object pre =
     list_all (\<lambda>p. expected_step json_object p = Inr None) pre"

text \<open>
  In the loop of \<^verbatim>\<open>validate_optional\<close> a descriptor lets the loop go on when its
  key is absent, or when the value has the right type and line 199 is not reached (the
  type is not \<^verbatim>\<open>dict\<close>, or there is no \<^verbatim>\<open>"optional_keys"\<close> entry).
\<close>

definition passes_without_recursion :: "mapping \<Rightarrow> descriptor \<Rightarrow> bool" where
  "passes_without_recursion json_object p =
     (case getitem json_object (param_name p) of
        Inl e \<Rightarrow> True
      | Inr v \<Rightarrow>
          isinstance v (param_type p) \<and>
          \<not> (param_type p = TDict \<and> optional_keys p \<noteq> None))"

text \<open>
  The keys of the enclosing object that a descriptor list names: every
  \<^verbatim>\<open>"param_name"\<close>, and the \<^verbatim>\<open>"depends_on"\<close> of every
  \<^verbatim>\<open>"conditional_keys"\<close> entry.
\<close>

definition descriptor_names :: "descriptor \<Rightarrow> string list" where
  "descriptor_names k =
     param_name k # (case conditional_keys k of None \<Rightarrow> [] | Some c \<Rightarrow> [depends_on c])"

definition named_keys :: "descriptor list \<Rightarrow> string list" where
  "named_keys exp_keys = concat (map descriptor_names exp_keys)"

section \<open>Example schemas\<close>

text \<open>
  The descriptors of the examples: a plain string key, an enumerated string key, an
  integer key, and a dict key \<open>info\<close> whose sub-schema depends on the value of
  \<open>kind\<close>, with the single branch \<open>local\<close>.
\<close>

definition kind_key :: descriptor where
  "kind_key = Descriptor ''kind'' TStr None None None None"

definition mode_key :: descriptor where
  "mode_key = Descriptor ''mode'' TStr (Some [PStr ''a'', PStr ''b'']) None None None"

definition port_key :: descriptor where
  "port_key = Descriptor ''port'' TInt None None None None"

definition path_key :: descriptor where
  "path_key = Descriptor ''path'' TStr None None None None"

definition info_cond :: conditional where
  "info_cond = Conditional ''kind'' [(PStr ''local'', Branch (Some [path_key]) (Some []))]"

definition info_key :: descriptor where
  "info_key = Descriptor ''info'' TDict None None None (Some info_cond)"

definition info_both_key :: descriptor where
  "info_both_key = Descriptor ''info'' TDict None (Some [path_key]) None (Some info_cond)"

definition cfg_key :: descriptor where
  "cfg_key = Descriptor ''cfg'' TDict None (Some [port_key]) None None"

definition cfg_enum_key :: descriptor where
  "cfg_enum_key = Descriptor ''cfg'' TDict (Some [PDict []]) (Some [port_key]) None None"

definition opts_key :: descriptor where
  "opts_key = Descriptor ''opts'' TDict None None (Some []) None"

lemmas example_keys =
  kind_key_def mode_key_def port_key_def path_key_def info_cond_def info_key_def
  info_both_key_def cfg_key_def cfg_enum_key_def opts_key_def

lemmas evaluation =
  validate.simps validate_expected.simps expected_loop.simps expected_step.simps
  contains_params_def contains_def getitem_def value_permitted_def select_branch_def
  getitem_val_def as_mapping_def py_in_def valid_keys_def contains_valid_def
  checks_pass_def falls_through_def passes_without_recursion_def
  descriptor_names_def named_keys_def

section \<open>Presence and type checks\<close>

lemma contains_map_of: "contains D k \<longleftrightarrow> map_of D k \<noteq> None"
  by (simp add: contains_def map_of_eq_None_iff)

lemma getitem_Inr: "getitem D k = Inr v \<longleftrightarrow> map_of D k = Some v"
  by (simp add: getitem_def split: option.splits)

lemma getitem_Inl: "getitem D k = Inl e \<longleftrightarrow> map_of D k = None \<and> e = KeyError"
  by (auto simp: getitem_def split: option.splits)

lemma all_contains_params:
  "list_all id (contains_params D E) \<longleftrightarrow> (\<forall>k \<in> set E. contains D (param_name k))"
  by (simp add: contains_params_def list_all_iff)

lemma correct_types_missing:
  "\<exists>k \<in> set E. \<not> contains D (param_name k) \<Longrightarrow> correct_types D E = Inl KeyError"
proof (induction E)
  case Nil
  then show ?case by simp
next
  case (Cons a E)
  show ?case
  proof (cases "contains D (param_name a)")
    case True
    with Cons.prems have "\<exists>k \<in> set E. \<not> contains D (param_name k)" by auto
    then have "correct_types D E = Inl KeyError" by (rule Cons.IH)
    then show ?thesis by (auto simp: getitem_Inl split: sum.splits)
  next
    case False
    then show ?thesis by (simp add: contains_map_of getitem_def)
  qed
qed

lemma correct_types_present:
  "\<forall>k \<in> set E. contains D (param_name k) \<Longrightarrow>
   \<exists>cts. correct_types D E = Inr cts \<and> length cts = length E"
proof (induction E)
  case Nil
  then show ?case by simp
next
  case (Cons a E)
  then obtain cts where "correct_types D E = Inr cts" "length cts = length E" by auto
  moreover from Cons.prems obtain v where "getitem D (param_name a) = Inr v"
    by (auto simp: contains_map_of getitem_def)
  ultimately show ?case by simp
qed

lemma correct_types_all:
  "correct_types D E = Inr cts \<Longrightarrow> list_all id cts \<Longrightarrow> k \<in> set E \<Longrightarrow>
   \<exists>v. map_of D (param_name k) = Some v \<and> isinstance v (param_type k)"
proof (induction E arbitrary: cts)
  case Nil
  then show ?case by simp
next
  case (Cons a E)
  from Cons.prems(1) obtain v bs where
    v: "getitem D (param_name a) = Inr v" and bs: "correct_types D E = Inr bs"
    and cts: "cts = isinstance v (param_type a) # bs"
    by (auto split: sum.splits)
  show ?case
  proof (cases "k = a")
    case True
    with v cts Cons.prems(2) show ?thesis by (simp add: getitem_Inr)
  next
    case False
    with Cons.prems(3) have "k \<in> set E" by simp
    moreover from cts Cons.prems(2) have "list_all id bs" by (simp add: id_def)
    ultimately show ?thesis using Cons.IH [OF bs] by blast
  qed
qed

lemma validate_expected_True:
  assumes "validate_expected D E = Inr True"
  shows "list_all id (contains_params D E)"
    and "\<exists>cts. correct_types D E = Inr cts \<and> list_all id cts"
  using assms
  by (auto simp: validate_expected.simps split: if_splits sum.splits)

lemma validate_expected_checks_pass:
  "checks_pass D E \<Longrightarrow> validate_expected D E = expected_loop D E"
  by (auto simp: checks_pass_def validate_expected.simps split: sum.splits)

lemma checks_pass_member:
  assumes "checks_pass D E" and "k \<in> set E"
  shows "\<exists>v. getitem D (param_name k) = Inr v \<and> isinstance v (param_type k)"
proof -
  from assms(1) obtain cts where "correct_types D E = Inr cts" "list_all id cts"
    by (auto simp: checks_pass_def split: sum.splits)
  from correct_types_all [OF this assms(2)] show ?thesis
    by (simp add: getitem_Inr)
qed

lemma isinstance_TDict: "isinstance v TDict \<longleftrightarrow> (\<exists>d. v = PDict d)"
  by (cases v) simp_all

lemma checks_pass_dict:
  assumes "checks_pass D E" and "k \<in> set E" and "param_type k = TDict"
  shows "\<exists>d. getitem D (param_name k) = Inr (PDict d)"
  using checks_pass_member [OF assms(1,2)] assms(3)
  by (auto simp: isinstance_TDict)

lemma expected_loop_falls_through:
  "falls_through D pre \<Longrightarrow> expected_loop D (pre @ rest) = expected_loop D rest"
  by (induction pre) (simp_all add: falls_through_def expected_loop.simps)

lemma validate_expected_reaches:
  assumes "checks_pass D (pre @ ek # post)" and "falls_through D pre"
  shows "validate_expected D (pre @ ek # post) =
     (case expected_step D ek of
        Inl e \<Rightarrow> Inl e
      | Inr (Some verdict) \<Rightarrow> Inr verdict
      | Inr None \<Rightarrow> expected_loop D post)"
  using assms
  by (simp add: validate_expected_checks_pass expected_loop_falls_through
        expected_loop.simps)

lemma nested_check_passes:
  assumes "\<forall>nested. expected_keys ek = Some nested \<longrightarrow>
           (\<exists>d. getitem D (param_name ek) = Inr (PDict d)
                \<and> validate_expected d nested = Inr True)"
  shows "(case expected_keys ek of
         None \<Rightarrow> Inr True
       | Some nested \<Rightarrow>
           (case getitem D (param_name ek) of
              Inl e \<Rightarrow> Inl e
            | Inr v \<Rightarrow>
                (case as_mapping v of
                   Inl e \<Rightarrow> Inl e
                 | Inr d \<Rightarrow> validate_expected d nested))) = Inr True"
  using assms by (auto simp: as_mapping_def split: option.splits)

lemma getitem_val_unmatched:
  assumes "list_all (\<lambda>(k', br). \<not> py_eq k' dv) d"
  shows "getitem_val d dv = Inl (if hashable dv then KeyError else TypeError)"
proof -
  from assms have "find (\<lambda>(k', b). py_eq k' dv) d = None"
    by (auto simp: find_None_iff list_all_iff)
  then show ?thesis by (simp add: getitem_val_def)
qed

text \<open>
  C1. If the data mapping holds a key that is neither a required nor an optional
  descriptor name, \<open>validate\<close> returns false. The rejection comes before the presence
  and type checks: the verdict is false whatever \<open>validate_expected\<close> would do on the
  same input, also where it would raise.
\<close>

theorem validate_rejects_unknown_key:
  assumes "contains D k"
    and "k \<notin> set (map param_name req)"
    and "\<forall>oks. opt = Some oks \<longrightarrow> k \<notin> set (map param_name oks)"
  shows "validate D req opt = Inr False"
proof -
  from assms(1) have "k \<in> set (map fst D)" by (simp add: contains_def)
  with assms(2,3) show ?thesis
    by (cases opt) (auto simp: validate.simps valid_keys_def contains_valid_def list_all_iff)
qed

theorem validate_rejects_unknown_key_witness:
  "contains [(''kind'', PStr ''other''), (''info'', PDict []), (''extra'', PInt 1)] ''extra''
   \<and> ''extra'' \<notin> set (map param_name [kind_key, info_key])
   \<and> ''extra'' \<notin> set (map param_name [port_key])
   \<and> validate_expected
        [(''kind'', PStr ''other''), (''info'', PDict []), (''extra'', PInt 1)]
        [kind_key, info_key] = Inl KeyError
   \<and> validate
        [(''kind'', PStr ''other''), (''info'', PDict []), (''extra'', PInt 1)]
        [kind_key, info_key] (Some [port_key]) = Inr False
   \<and> validate
        [(''kind'', PStr ''other''), (''info'', PDict []), (''extra'', PInt 1)]
        [kind_key, info_key] None = Inr False"
proof -
  let ?D = "[(''kind'', PStr ''other''), (''info'', PDict []), (''extra'', PInt 1)]"
  have a: "contains ?D ''extra''" by (simp add: contains_def)
  have b: "''extra'' \<notin> set (map param_name [kind_key, info_key])"
    by (simp add: example_keys)
  have b': "''extra'' \<notin> set (map param_name [port_key])"
    by (simp add: example_keys)
  then have c: "\<forall>oks. Some [port_key] = Some oks
             \<longrightarrow> ''extra'' \<notin> set (map param_name oks)" by simp
  have c': "\<forall>oks. (None :: descriptor list option) = Some oks
             \<longrightarrow> ''extra'' \<notin> set (map param_name oks)" by simp
  have d: "validate_expected ?D [kind_key, info_key] = Inl KeyError"
    by (simp add: example_keys evaluation)
  from validate_rejects_unknown_key [OF a b c] validate_rejects_unknown_key [OF a b c']
    a b b' d
  show ?thesis by simp
qed

text \<open>
  C5. \<open>validate_expected\<close> checks the presence of every required name before it looks at
  any type. If a required name is missing it returns false, although the type check of
  the same descriptors would raise on the missing key, so no type check has run; if all
  names are present, the type check runs for every descriptor without raising, and only
  its outcome decides whether the loop over the descriptors is entered.
\<close>

theorem presence_before_types:
  "((\<exists>k \<in> set E. \<not> contains D (param_name k)) \<longrightarrow>
      validate_expected D E = Inr False \<and> correct_types D E = Inl KeyError)
   \<and> ((\<forall>k \<in> set E. contains D (param_name k)) \<longrightarrow>
      (\<exists>cts. correct_types D E = Inr cts \<and> length cts = length E
         \<and> validate_expected D E =
             (if list_all id cts then expected_loop D E else Inr False)))"
proof (intro conjI impI)
  assume missing: "\<exists>k \<in> set E. \<not> contains D (param_name k)"
  then show "validate_expected D E = Inr False"
    by (simp add: validate_expected.simps all_contains_params)
  from missing show "correct_types D E = Inl KeyError"
    by (rule correct_types_missing)
next
  assume present: "\<forall>k \<in> set E. contains D (param_name k)"
  then obtain cts where cts: "correct_types D E = Inr cts" "length cts = length E"
    using correct_types_present by blast
  with present have "validate_expected D E =
      (if list_all id cts then expected_loop D E else Inr False)"
    by (simp add: validate_expected.simps all_contains_params)
  with cts show "\<exists>cts. correct_types D E = Inr cts \<and> length cts = length E
         \<and> validate_expected D E =
             (if list_all id cts then expected_loop D E else Inr False)"
    by blast
qed

theorem presence_before_types_witness:
  "(\<exists>k \<in> set [kind_key, port_key]. \<not> contains [(''kind'', PInt 7)] (param_name k))
   \<and> validate_expected [(''kind'', PInt 7)] [kind_key, port_key] = Inr False
   \<and> correct_types [(''kind'', PInt 7)] [kind_key, port_key] = Inl KeyError
   \<and> contains [(''kind'', PInt 7), (''port'', PInt 80)] (param_name kind_key)
   \<and> contains [(''kind'', PInt 7), (''port'', PInt 80)] (param_name port_key)
   \<and> (\<exists>cts. correct_types [(''kind'', PInt 7), (''port'', PInt 80)] [kind_key, port_key]
            = Inr cts
         \<and> length cts = length [kind_key, port_key]
         \<and> validate_expected [(''kind'', PInt 7), (''port'', PInt 80)] [kind_key, port_key]
            = (if list_all id cts
               then expected_loop [(''kind'', PInt 7), (''port'', PInt 80)]
                      [kind_key, port_key]
               else Inr False))"
proof -
  let ?E = "[kind_key, port_key]"
  let ?D1 = "[(''kind'', PInt 7)]"
  let ?D2 = "[(''kind'', PInt 7), (''port'', PInt 80)]"
  have a: "\<exists>k \<in> set ?E. \<not> contains ?D1 (param_name k)"
    by (simp add: example_keys contains_def)
  have b: "contains ?D2 (param_name kind_key)" "contains ?D2 (param_name port_key)"
    by (simp_all add: example_keys contains_def)
  then have c: "\<forall>k \<in> set ?E. contains ?D2 (param_name k)" by simp
  from presence_before_types [of ?E ?D1] a
  have "validate_expected ?D1 ?E = Inr False \<and> correct_types ?D1 ?E = Inl KeyError"
    by blast
  moreover from presence_before_types [of ?E ?D2] c
  have "\<exists>cts. correct_types ?D2 ?E = Inr cts \<and> length cts = length ?E
         \<and> validate_expected ?D2 ?E =
             (if list_all id cts then expected_loop ?D2 ?E else Inr False)"
    by blast
  ultimately show ?thesis using a b by blast
qed

text \<open>
  C6. If \<open>validate\<close> returns true, every required descriptor's name is a key of the data
  mapping and the value there is an instance of the descriptor's type, in the sense of
  Python's \<^verbatim>\<open>isinstance\<close> (a \<^verbatim>\<open>bool\<close> is an instance of \<^verbatim>\<open>int\<close>).
\<close>

theorem validate_True_required_present_and_typed:
  assumes "validate D req opt = Inr True" and "k \<in> set req"
  shows "contains D (param_name k)
     \<and> (\<exists>v. getitem D (param_name k) = Inr v \<and> isinstance v (param_type k))"
proof -
  from assms(1) have "validate_expected D req = Inr True"
    by (auto simp: validate.simps split: if_splits sum.splits)
  then obtain cts where "correct_types D req = Inr cts" "list_all id cts"
    using validate_expected_True(2) by blast
  from correct_types_all [OF this assms(2)]
  obtain v where "map_of D (param_name k) = Some v" "isinstance v (param_type k)"
    by blast
  then show ?thesis by (auto simp: contains_map_of getitem_Inr)
qed

theorem validate_True_required_present_and_typed_witness:
  "validate [(''kind'', PStr ''x''), (''port'', PBool True)] [kind_key, port_key] None
     = Inr True
   \<and> port_key \<in> set [kind_key, port_key]
   \<and> contains [(''kind'', PStr ''x''), (''port'', PBool True)] (param_name port_key)
   \<and> (\<exists>v. getitem [(''kind'', PStr ''x''), (''port'', PBool True)] (param_name port_key)
            = Inr v \<and> isinstance v (param_type port_key))"
proof -
  have a: "validate [(''kind'', PStr ''x''), (''port'', PBool True)]
      [kind_key, port_key] None = Inr True"
    by (simp add: example_keys evaluation)
  have b: "port_key \<in> set [kind_key, port_key]" by simp
  from validate_True_required_present_and_typed [OF a b] a b show ?thesis by blast
qed


text \<open>
  C4. When the loop of \<open>validate_expected\<close> reaches a dict descriptor with
  \<^verbatim>\<open>conditional_keys\<close> (presence and types hold for all descriptors, the
  descriptors before it fell through, its own value-set and fixed nested checks passed)
  and a branch is selected, the verdict of \<open>validate\<close> on the nested mapping with the
  branch's two lists is the verdict of the whole call. The descriptors after it do not
  enter the result.
\<close>

theorem conditional_branch_is_verdict:
  assumes "checks_pass D (pre @ ek # post)"
    and "falls_through D pre"
    and "value_permitted D ek = Inr True"
    and "param_type ek = TDict"
    and "\<forall>nested. expected_keys ek = Some nested \<longrightarrow>
           (\<exists>d. getitem D (param_name ek) = Inr (PDict d)
                \<and> validate_expected d nested = Inr True)"
    and "conditional_keys ek = Some c"
    and "select_branch D c = Inr (nested_expected_keys, nested_optional_keys)"
  shows "\<exists>d. getitem D (param_name ek) = Inr (PDict d)
           \<and> validate_expected D (pre @ ek # post) =
               validate d nested_expected_keys (Some nested_optional_keys)"
proof -
  from checks_pass_dict [OF assms(1) _ assms(4)]
  obtain d where d: "getitem D (param_name ek) = Inr (PDict d)" by auto
  note nested = nested_check_passes [OF assms(5)]
  have "expected_step D ek =
      (case validate d nested_expected_keys (Some nested_optional_keys) of
         Inl e \<Rightarrow> Inl e
       | Inr verdict \<Rightarrow> Inr (Some verdict))"
    by (subst expected_step.simps)
       (simp add: assms(3,4,6,7) nested d as_mapping_def)
  then have "validate_expected D (pre @ ek # post) =
      validate d nested_expected_keys (Some nested_optional_keys)"
    by (simp add: validate_expected_reaches [OF assms(1,2)] split: sum.splits)
  with d show ?thesis by blast
qed


theorem conditional_branch_is_verdict_witness:
  "checks_pass
     [(''kind'', PStr ''local''), (''info'', PDict [(''path'', PStr ''/tmp'')]),
      (''mode'', PStr ''c'')]
     ([kind_key] @ info_both_key # [mode_key])
   \<and> falls_through
     [(''kind'', PStr ''local''), (''info'', PDict [(''path'', PStr ''/tmp'')]),
      (''mode'', PStr ''c'')] [kind_key]
   \<and> validate_expected [(''path'', PStr ''/tmp'')] [path_key] = Inr True
   \<and> select_branch
     [(''kind'', PStr ''local''), (''info'', PDict [(''path'', PStr ''/tmp'')]),
      (''mode'', PStr ''c'')] info_cond = Inr ([path_key], [])
   \<and> value_permitted
     [(''kind'', PStr ''local''), (''info'', PDict [(''path'', PStr ''/tmp'')]),
      (''mode'', PStr ''c'')] mode_key = Inr False
   \<and> validate_expected
     [(''kind'', PStr ''local''), (''info'', PDict [(''path'', PStr ''/tmp'')]),
      (''mode'', PStr ''c'')]
     ([kind_key] @ info_both_key # [mode_key])
     = validate [(''path'', PStr ''/tmp'')] [path_key] (Some [])
   \<and> validate [(''path'', PStr ''/tmp'')] [path_key] (Some []) = Inr True"
proof -
  let ?D = "[(''kind'', PStr ''local''), (''info'', PDict [(''path'', PStr ''/tmp'')]),
      (''mode'', PStr ''c'')]"
  have a: "checks_pass ?D ([kind_key] @ info_both_key # [mode_key])"
    by (simp add: example_keys evaluation)
  have b: "falls_through ?D [kind_key]"
    by (simp add: example_keys evaluation)
  have c: "value_permitted ?D info_both_key = Inr True"
    by (simp add: example_keys evaluation)
  have d: "param_type info_both_key = TDict"
    by (simp add: example_keys)
  have n: "validate_expected [(''path'', PStr ''/tmp'')] [path_key] = Inr True"
    by (simp add: example_keys evaluation)
  have g: "getitem ?D (param_name info_both_key) = Inr (PDict [(''path'', PStr ''/tmp'')])"
    by (simp add: example_keys evaluation)
  have e: "\<forall>nested. expected_keys info_both_key = Some nested \<longrightarrow>
      (\<exists>d. getitem ?D (param_name info_both_key) = Inr (PDict d)
           \<and> validate_expected d nested = Inr True)"
    using n g by (simp add: info_both_key_def)
  have f: "conditional_keys info_both_key = Some info_cond"
    by (simp add: example_keys)
  have h: "select_branch ?D info_cond = Inr ([path_key], [])"
    by (simp add: example_keys evaluation)
  have m: "value_permitted ?D mode_key = Inr False"
    by (simp add: example_keys evaluation)
  have v: "validate [(''path'', PStr ''/tmp'')] [path_key] (Some []) = Inr True"
    by (simp add: example_keys evaluation)
  from conditional_branch_is_verdict [OF a b c d e f h] g
  have "validate_expected ?D ([kind_key] @ info_both_key # [mode_key])
      = validate [(''path'', PStr ''/tmp'')] [path_key] (Some [])"
    by auto
  with a b n h m v show ?thesis by blast
qed

text \<open>
  C2, as the code has it. When the loop of \<open>validate_expected\<close> reaches a dict descriptor
  with \<^verbatim>\<open>conditional_keys\<close> and no entry of \<^verbatim>\<open>dependence_info\<close> equals the
  value of the key depended on, the subscript raises (\<^verbatim>\<open>KeyError\<close>, or
  \<^verbatim>\<open>TypeError\<close> for a list or dict value): \<open>validate_expected\<close> ends in that
  error, not in a verdict, and so does \<open>validate\<close> unless it has rejected an unknown key
  before.
\<close>

theorem unmatched_branch_raises:
  assumes "checks_pass D (pre @ ek # post)"
    and "falls_through D pre"
    and "value_permitted D ek = Inr True"
    and "param_type ek = TDict"
    and "\<forall>nested. expected_keys ek = Some nested \<longrightarrow>
           (\<exists>d. getitem D (param_name ek) = Inr (PDict d)
                \<and> validate_expected d nested = Inr True)"
    and "conditional_keys ek = Some c"
    and "getitem D (depends_on c) = Inr depends_on_val"
    and "list_all (\<lambda>(k', br). \<not> py_eq k' depends_on_val) (dependence_info c)"
  shows "validate_expected D (pre @ ek # post)
           = Inl (if hashable depends_on_val then KeyError else TypeError)
       \<and> validate D (pre @ ek # post) opt
           = (if list_all id (contains_valid D (valid_keys (pre @ ek # post) opt))
              then Inl (if hashable depends_on_val then KeyError else TypeError)
              else Inr False)"
proof -
  let ?err = "if hashable depends_on_val then KeyError else TypeError"
  note nested = nested_check_passes [OF assms(5)]
  have "select_branch D c = Inl ?err"
    by (simp add: select_branch_def assms(7) getitem_val_unmatched [OF assms(8)])
  then have "expected_step D ek = Inl ?err"
    by (subst expected_step.simps) (simp add: assms(3,4,6) nested)
  then have *: "validate_expected D (pre @ ek # post) = Inl ?err"
    by (simp add: validate_expected_reaches [OF assms(1,2)])
  then show ?thesis
    by (simp add: validate.simps)
qed

theorem unmatched_branch_raises_witness:
  "checks_pass [(''kind'', PStr ''other''), (''info'', PDict [])]
     ([kind_key] @ info_key # [])
   \<and> falls_through [(''kind'', PStr ''other''), (''info'', PDict [])] [kind_key]
   \<and> getitem [(''kind'', PStr ''other''), (''info'', PDict [])] (depends_on info_cond)
       = Inr (PStr ''other'')
   \<and> list_all (\<lambda>(k', br). \<not> py_eq k' (PStr ''other'')) (dependence_info info_cond)
   \<and> validate_expected [(''kind'', PStr ''other''), (''info'', PDict [])]
       ([kind_key] @ info_key # []) = Inl KeyError
   \<and> validate [(''kind'', PStr ''other''), (''info'', PDict [])]
       ([kind_key] @ info_key # []) None = Inl KeyError"
proof -
  let ?D = "[(''kind'', PStr ''other''), (''info'', PDict [])]"
  have a: "checks_pass ?D ([kind_key] @ info_key # [])"
    by (simp add: example_keys evaluation)
  have b: "falls_through ?D [kind_key]"
    by (simp add: example_keys evaluation)
  have c: "value_permitted ?D info_key = Inr True"
    by (simp add: example_keys evaluation)
  have d: "param_type info_key = TDict"
    by (simp add: example_keys)
  have e: "\<forall>nested. expected_keys info_key = Some nested \<longrightarrow>
      (\<exists>d. getitem ?D (param_name info_key) = Inr (PDict d)
           \<and> validate_expected d nested = Inr True)"
    by (simp add: info_key_def)
  have f: "conditional_keys info_key = Some info_cond"
    by (simp add: example_keys)
  have g: "getitem ?D (depends_on info_cond) = Inr (PStr ''other'')"
    by (simp add: example_keys evaluation)
  have h: "list_all (\<lambda>(k', br). \<not> py_eq k' (PStr ''other'')) (dependence_info info_cond)"
    by (simp add: example_keys)
  have k: "list_all id (contains_valid ?D (valid_keys ([kind_key] @ info_key # []) None))"
    by (simp add: example_keys evaluation)
  from unmatched_branch_raises [OF a b c d e f g h, of None] k
  have "validate_expected ?D ([kind_key] @ info_key # []) = Inl KeyError
      \<and> validate ?D ([kind_key] @ info_key # []) None = Inl KeyError"
    by simp
  with a b g h show ?thesis by blast
qed

text \<open>
  The claim C2 as it is written, for every data mapping, does not hold: here the value of
  \<open>kind\<close> has no branch, yet the enumerated key \<open>mode\<close> comes first in the list and
  its value is not permitted, so the verdict is an ordinary false and nothing is raised.
\<close>

theorem unmatched_branch_not_reached:
  "getitem [(''kind'', PStr ''other''), (''mode'', PStr ''c''), (''info'', PDict [])]
     (depends_on info_cond) = Inr (PStr ''other'')
   \<and> list_all (\<lambda>(k', br). \<not> py_eq k' (PStr ''other'')) (dependence_info info_cond)
   \<and> conditional_keys info_key = Some info_cond
   \<and> validate_expected
       [(''kind'', PStr ''other''), (''mode'', PStr ''c''), (''info'', PDict [])]
       [kind_key, mode_key, info_key] = Inr False
   \<and> validate
       [(''kind'', PStr ''other''), (''mode'', PStr ''c''), (''info'', PDict [])]
       [kind_key, mode_key, info_key] None = Inr False"
  by (simp add: example_keys evaluation)


lemma value_permitted_no_error:
  assumes "checks_pass D E" and "k \<in> set E"
  shows "\<exists>b. value_permitted D k = Inr b"
proof -
  from checks_pass_member [OF assms] obtain v where "getitem D (param_name k) = Inr v"
    by auto
  then show ?thesis
    by (cases "possible_values k") (auto simp: value_permitted_def)
qed

text \<open>
  C3, as the code has it. When the loop of \<open>validate_expected\<close> reaches a dict descriptor
  with a fixed nested list \<^verbatim>\<open>"expected_keys"\<close> and no \<^verbatim>\<open>"conditional_keys"\<close>,
  the descriptor's own value-set check comes first and its failure is the verdict false.
  Otherwise the recursion is a call of \<open>validate_expected\<close> itself on the nested mapping
  with that list alone: no legal-key set is derived and no optional list is consulted.
  A nested false is the verdict of the whole call; a nested true lets the loop go on
  with the next descriptor.
\<close>

theorem nested_expected_keys_recursion:
  assumes "checks_pass D (pre @ ek # post)"
    and "falls_through D pre"
    and "param_type ek = TDict"
    and "expected_keys ek = Some nested"
    and "conditional_keys ek = None"
  shows "\<exists>d. getitem D (param_name ek) = Inr (PDict d)
           \<and> validate_expected D (pre @ ek # post) =
               (if value_permitted D ek = Inr False then Inr False
                else
                  (case validate_expected d nested of
                     Inl e \<Rightarrow> Inl e
                   | Inr nested_ok \<Rightarrow>
                       if nested_ok then expected_loop D post else Inr False))"
proof -
  from checks_pass_dict [OF assms(1) _ assms(3)]
  obtain d where d: "getitem D (param_name ek) = Inr (PDict d)" by auto
  from value_permitted_no_error [OF assms(1), of ek]
  obtain permitted where p: "value_permitted D ek = Inr permitted" by auto
  have "expected_step D ek =
      (if \<not> permitted then Inr (Some False)
       else
         (case validate_expected d nested of
            Inl e \<Rightarrow> Inl e
          | Inr nested_ok \<Rightarrow> if nested_ok then Inr None else Inr (Some False)))"
    by (subst expected_step.simps)
       (simp add: p assms(3,4,5) d as_mapping_def split: sum.splits)
  then have "validate_expected D (pre @ ek # post) =
      (if \<not> permitted then Inr False
       else
         (case validate_expected d nested of
            Inl e \<Rightarrow> Inl e
          | Inr nested_ok \<Rightarrow> if nested_ok then expected_loop D post else Inr False))"
    by (simp add: validate_expected_reaches [OF assms(1,2)] split: sum.splits)
  with d p show ?thesis by auto
qed

theorem nested_expected_keys_recursion_witness:
  "checks_pass [(''kind'', PStr ''x''), (''cfg'', PDict [(''port'', PStr ''80'')])]
     ([kind_key] @ cfg_key # [])
   \<and> falls_through [(''kind'', PStr ''x''), (''cfg'', PDict [(''port'', PStr ''80'')])]
       [kind_key]
   \<and> validate_expected [(''port'', PStr ''80'')] [port_key] = Inr False
   \<and> validate_expected [(''kind'', PStr ''x''), (''cfg'', PDict [(''port'', PStr ''80'')])]
       ([kind_key] @ cfg_key # []) = Inr False
   \<and> validate_expected [(''port'', PInt 80), (''extra'', PInt 1)] [port_key] = Inr True
   \<and> validate_expected
       [(''kind'', PStr ''x''), (''cfg'', PDict [(''port'', PInt 80), (''extra'', PInt 1)])]
       ([kind_key] @ cfg_key # []) = Inr True
   \<and> value_permitted [(''kind'', PStr ''x''), (''cfg'', PDict [(''port'', PInt 80)])]
       cfg_enum_key = Inr False
   \<and> validate_expected [(''port'', PInt 80)] [port_key] = Inr True
   \<and> validate_expected [(''kind'', PStr ''x''), (''cfg'', PDict [(''port'', PInt 80)])]
       ([kind_key] @ cfg_enum_key # []) = Inr False"
proof -
  let ?D = "[(''kind'', PStr ''x''), (''cfg'', PDict [(''port'', PStr ''80'')])]"
  let ?D' = "[(''kind'', PStr ''x''),
      (''cfg'', PDict [(''port'', PInt 80), (''extra'', PInt 1)])]"
  let ?D'' = "[(''kind'', PStr ''x''), (''cfg'', PDict [(''port'', PInt 80)])]"
  have a: "checks_pass ?D ([kind_key] @ cfg_key # [])"
    and a': "checks_pass ?D' ([kind_key] @ cfg_key # [])"
    and a'': "checks_pass ?D'' ([kind_key] @ cfg_enum_key # [])"
    by (simp_all add: example_keys evaluation)
  have b: "falls_through ?D [kind_key]" and b': "falls_through ?D' [kind_key]"
    and b'': "falls_through ?D'' [kind_key]"
    by (simp_all add: example_keys evaluation)
  have c: "value_permitted ?D cfg_key = Inr True"
    and c': "value_permitted ?D' cfg_key = Inr True"
    and c'': "value_permitted ?D'' cfg_enum_key = Inr False"
    by (simp_all add: example_keys evaluation)
  have d: "param_type cfg_key = TDict" "expected_keys cfg_key = Some [port_key]"
    "conditional_keys cfg_key = None"
    and d'': "param_type cfg_enum_key = TDict"
    "expected_keys cfg_enum_key = Some [port_key]"
    "conditional_keys cfg_enum_key = None"
    by (simp_all add: example_keys)
  have g: "getitem ?D (param_name cfg_key) = Inr (PDict [(''port'', PStr ''80'')])"
    and g': "getitem ?D' (param_name cfg_key)
      = Inr (PDict [(''port'', PInt 80), (''extra'', PInt 1)])"
    by (simp_all add: example_keys evaluation)
  have n: "validate_expected [(''port'', PStr ''80'')] [port_key] = Inr False"
    and n': "validate_expected [(''port'', PInt 80), (''extra'', PInt 1)] [port_key]
      = Inr True"
    and n'': "validate_expected [(''port'', PInt 80)] [port_key] = Inr True"
    by (simp_all add: example_keys evaluation)
  from nested_expected_keys_recursion [OF a b d] g n c
  have r: "validate_expected ?D ([kind_key] @ cfg_key # []) = Inr False"
    by auto
  from nested_expected_keys_recursion [OF a' b' d] g' n' c'
  have r': "validate_expected ?D' ([kind_key] @ cfg_key # []) = Inr True"
    by (auto simp: expected_loop.simps)
  from nested_expected_keys_recursion [OF a'' b'' d''] c''
  have r'': "validate_expected ?D'' ([kind_key] @ cfg_enum_key # []) = Inr False"
    by auto
  from a b n r n' r' c'' n'' r'' show ?thesis by blast
qed

text \<open>
  The claim C3 as it is written does not hold: the recursion does not go through
  \<open>validate\<close>. The nested mapping below holds the key \<open>extra\<close> that its sub-schema
  does not name; \<open>validate\<close> on the nested mapping rejects it, with or without an empty
  optional list, and yet the whole object is valid.
\<close>

theorem nested_unknown_key_accepted:
  "expected_keys cfg_key = Some [port_key]
   \<and> validate [(''port'', PInt 80), (''extra'', PInt 1)] [port_key] None = Inr False
   \<and> validate [(''port'', PInt 80), (''extra'', PInt 1)] [port_key] (Some []) = Inr False
   \<and> validate [(''cfg'', PDict [(''port'', PInt 80), (''extra'', PInt 1)])] [cfg_key] None
       = Inr True
   \<and> validate [(''cfg'', PDict [(''port'', PInt 80), (''extra'', PInt 1)])] [cfg_key]
       (Some []) = Inr True"
  by (simp add: example_keys evaluation)

text \<open>
  Where the loop of \<open>validate_expected\<close> reaches a descriptor with
  \<^verbatim>\<open>"possible_values"\<close> and the value at its key equals none of them, the call
  returns false (line 130).
\<close>

lemma value_not_permitted_returns_False:
  assumes "checks_pass D (pre @ ek # post)"
    and "falls_through D pre"
    and "possible_values ek = Some pvs"
    and "getitem D (param_name ek) = Inr v"
    and "\<not> py_in v pvs"
  shows "validate_expected D (pre @ ek # post) = Inr False"
proof -
  have "value_permitted D ek = Inr False"
    by (simp add: value_permitted_def assms(3,4,5))
  then have "expected_step D ek = Inr (Some False)"
    by (subst expected_step.simps) simp
  then show ?thesis
    by (simp add: validate_expected_reaches [OF assms(1,2)])
qed

text \<open>
  C9. A required descriptor with \<^verbatim>\<open>"possible_values"\<close> does not always make the
  validation fail on a value outside the set. Below, \<open>mode\<close> holds \<open>c\<close> where only
  \<open>a\<close> and \<open>b\<close> are permitted, and both \<open>validate_expected\<close> and \<open>validate\<close>
  return true: the conditional descriptor \<open>info\<close> comes first in the list, and line 152
  returns the verdict of its branch instead of going on with \<open>mode\<close>. With \<open>mode\<close>
  before \<open>info\<close> the same data is rejected, and so are the claim's own examples:
  \<open>mode\<close> alone with \<open>c\<close> is false, with \<open>a\<close> true.
\<close>

theorem possible_values_skipped_after_conditional:
  "possible_values mode_key = Some [PStr ''a'', PStr ''b'']
   \<and> getitem
       [(''kind'', PStr ''local''), (''info'', PDict [(''path'', PStr ''/tmp'')]),
        (''mode'', PStr ''c'')] (param_name mode_key) = Inr (PStr ''c'')
   \<and> \<not> py_in (PStr ''c'') [PStr ''a'', PStr ''b'']
   \<and> validate_expected
       [(''kind'', PStr ''local''), (''info'', PDict [(''path'', PStr ''/tmp'')]),
        (''mode'', PStr ''c'')]
       [kind_key, info_key, mode_key] = Inr True
   \<and> validate
       [(''kind'', PStr ''local''), (''info'', PDict [(''path'', PStr ''/tmp'')]),
        (''mode'', PStr ''c'')]
       [kind_key, info_key, mode_key] None = Inr True
   \<and> validate
       [(''kind'', PStr ''local''), (''info'', PDict [(''path'', PStr ''/tmp'')]),
        (''mode'', PStr ''c'')]
       [kind_key, mode_key, info_key] None = Inr False
   \<and> validate [(''mode'', PStr ''c'')] [mode_key] None = Inr False
   \<and> validate [(''mode'', PStr ''a'')] [mode_key] None = Inr True"
  by (simp add: example_keys evaluation)

section \<open>Optional keys\<close>

lemma validate_optional_absent:
  "\<not> contains D (param_name p) \<Longrightarrow>
   validate_optional D (p # rest) = validate_optional D rest"
  by simp

lemma validate_optional_passes:
  assumes "passes_without_recursion D p"
  shows "validate_optional D (p # rest) = validate_optional D rest"
proof (cases "contains D (param_name p)")
  case False
  then show ?thesis by simp
next
  case True
  then obtain v where v: "getitem D (param_name p) = Inr v"
    by (auto simp: contains_map_of getitem_def)
  with assms have "isinstance v (param_type p)"
    and "\<not> (param_type p = TDict \<and> optional_keys p \<noteq> None)"
    by (simp_all add: passes_without_recursion_def)
  with True v show ?thesis by auto
qed

text \<open>
  C8. In \<open>validate_optional\<close>, let the descriptors before \<open>ok\<close> let the loop go on, and
  let \<open>ok\<close> be a dict descriptor with its own \<^verbatim>\<open>"optional_keys"\<close> list whose key
  is present with a dict value. Then the verdict of the recursive call on that nested
  dict is the verdict of the whole call; the descriptors after \<open>ok\<close> do not enter the
  result.
\<close>

theorem nested_optional_verdict_returned:
  assumes "list_all (passes_without_recursion D) pre"
    and "getitem D (param_name ok) = Inr (PDict d)"
    and "param_type ok = TDict"
    and "optional_keys ok = Some nested"
  shows "validate_optional D (pre @ ok # post) = validate_optional d nested"
  using assms(1)
proof (induction pre)
  case Nil
  from assms(2) have "contains D (param_name ok)"
    by (simp add: contains_map_of getitem_Inr)
  with assms(2,3,4) show ?case by (simp add: as_mapping_def)
next
  case (Cons p pre)
  then show ?case
    by (simp add: validate_optional_passes del: validate_optional.simps)
qed

theorem nested_optional_verdict_returned_witness:
  "list_all
     (passes_without_recursion
        [(''port'', PInt 80), (''opts'', PDict []), (''mode'', PInt 5)])
     [port_key, kind_key]
   \<and> getitem [(''port'', PInt 80), (''opts'', PDict []), (''mode'', PInt 5)]
       (param_name opts_key) = Inr (PDict [])
   \<and> optional_keys opts_key = Some []
   \<and> validate_optional [(''port'', PInt 80), (''opts'', PDict []), (''mode'', PInt 5)]
       ([port_key, kind_key] @ opts_key # [mode_key]) = validate_optional [] []
   \<and> validate_optional [] [] = Inr True
   \<and> validate_optional [(''port'', PInt 80), (''opts'', PDict []), (''mode'', PInt 5)]
       [mode_key] = Inr False"
proof -
  let ?D = "[(''port'', PInt 80), (''opts'', PDict []), (''mode'', PInt 5)]"
  have a: "list_all (passes_without_recursion ?D) [port_key, kind_key]"
    by (simp add: example_keys evaluation)
  have b: "getitem ?D (param_name opts_key) = Inr (PDict [])"
    by (simp add: example_keys evaluation)
  have c: "param_type opts_key = TDict" "optional_keys opts_key = Some []"
    by (simp_all add: example_keys)
  have d: "validate_optional ?D [mode_key] = Inr False"
    by (simp add: example_keys evaluation)
  from nested_optional_verdict_returned [OF a b c, of "[mode_key]"] a b c d
  show ?thesis by simp
qed

text \<open>
  C7. \<open>validate_optional\<close> does not return true exactly when every present optional key
  has its type. Below, \<open>port\<close> is present with a string where an integer is declared,
  and the verdict is true: the dict descriptor \<open>opts\<close> comes first, and line 199
  returns the verdict of its nested call instead of going on with \<open>port\<close>. With the
  two descriptors in the other order the same data is rejected.
\<close>

theorem validate_optional_skips_later_keys:
  "contains [(''opts'', PDict []), (''port'', PStr ''80'')] (param_name port_key)
   \<and> getitem [(''opts'', PDict []), (''port'', PStr ''80'')] (param_name port_key)
       = Inr (PStr ''80'')
   \<and> \<not> isinstance (PStr ''80'') (param_type port_key)
   \<and> validate_optional [(''opts'', PDict []), (''port'', PStr ''80'')] [opts_key, port_key]
       = Inr True
   \<and> validate_optional [(''opts'', PDict []), (''port'', PStr ''80'')] [port_key, opts_key]
       = Inr False
   \<and> validate [(''opts'', PDict []), (''port'', PStr ''80'')] [] (Some [opts_key, port_key])
       = Inr True"
  by (simp add: example_keys evaluation)


section \<open>Keys that the required list does not name\<close>

text \<open>
  \<open>validate_expected\<close> reads the enclosing object only at the keys its descriptors
  name. Two objects that agree there get the same result.
\<close>

lemma getitem_agree: "map_of D x = map_of D' x \<Longrightarrow> getitem D x = getitem D' x"
  by (simp add: getitem_def)

lemma contains_agree: "map_of D x = map_of D' x \<Longrightarrow> contains D x = contains D' x"
  by (simp add: contains_map_of)

lemma param_name_named: "k \<in> set E \<Longrightarrow> param_name k \<in> set (named_keys E)"
  by (auto simp: named_keys_def descriptor_names_def)

lemma depends_on_named:
  "k \<in> set E \<Longrightarrow> conditional_keys k = Some c \<Longrightarrow> depends_on c \<in> set (named_keys E)"
  by (force simp: named_keys_def descriptor_names_def)

lemma correct_types_agree:
  "\<forall>k \<in> set E. map_of D (param_name k) = map_of D' (param_name k) \<Longrightarrow>
   correct_types D E = correct_types D' E"
  by (induction E) (simp_all add: getitem_def cong: sum.case_cong)

lemma expected_step_agree:
  assumes name: "map_of D (param_name ek) = map_of D' (param_name ek)"
    and dep: "\<And>c. conditional_keys ek = Some c \<Longrightarrow> map_of D (depends_on c) = map_of D' (depends_on c)"
  shows "expected_step D ek = expected_step D' ek"
proof -
  have g: "getitem D (param_name ek) = getitem D' (param_name ek)"
    using name by (rule getitem_agree)
  have p: "value_permitted D ek = value_permitted D' ek"
    by (simp add: value_permitted_def g cong: option.case_cong)
  show ?thesis
  proof (cases "conditional_keys ek")
    case None
    then show ?thesis
      by (simp add: expected_step.simps g p cong: sum.case_cong option.case_cong if_cong)
  next
    case (Some c)
    then have "select_branch D c = select_branch D' c"
      by (simp add: select_branch_def getitem_agree [OF dep])
    with Some show ?thesis
      by (simp add: expected_step.simps g p cong: sum.case_cong option.case_cong if_cong)
  qed
qed

lemma expected_loop_agree:
  "\<forall>x \<in> set (named_keys E). map_of D x = map_of D' x \<Longrightarrow>
   expected_loop D E = expected_loop D' E"
proof (induction E)
  case Nil
  show ?case by (simp add: expected_loop.simps)
next
  case (Cons ek E)
  have "set (named_keys E) \<subseteq> set (named_keys (ek # E))"
    by (simp add: named_keys_def)
  with Cons have "expected_loop D E = expected_loop D' E" by blast
  moreover have "expected_step D ek = expected_step D' ek"
    using Cons.prems
    by (intro expected_step_agree)
       (simp_all add: named_keys_def descriptor_names_def)
  ultimately show ?case
    by (simp add: expected_loop.simps cong: sum.case_cong option.case_cong)
qed

lemma validate_expected_agree:
  assumes "\<forall>x \<in> set (named_keys E). map_of D x = map_of D' x"
  shows "validate_expected D E = validate_expected D' E"
proof -
  from assms have names: "\<forall>k \<in> set E. map_of D (param_name k) = map_of D' (param_name k)"
    by (simp add: param_name_named)
  then have "contains_params D E = contains_params D' E"
    by (simp add: contains_params_def contains_map_of)
  moreover from names have "correct_types D E = correct_types D' E"
    by (rule correct_types_agree)
  moreover from assms have "expected_loop D E = expected_loop D' E"
    by (rule expected_loop_agree)
  ultimately show ?thesis
    by (simp add: validate_expected.simps cong: sum.case_cong if_cong)
qed

text \<open>
  C10. \<open>validate_expected\<close> alone rejects no unknown key. With an empty descriptor list
  it returns true for every mapping. For any descriptor list, an entry of the mapping
  under a key that no descriptor names (neither as its \<^verbatim>\<open>"param_name"\<close> nor as the
  \<^verbatim>\<open>"depends_on"\<close> of its \<^verbatim>\<open>"conditional_keys"\<close>) leaves the result as it is
  without that entry, so it never turns the result into false.
\<close>

theorem validate_expected_ignores_unnamed_keys:
  "validate_expected D [] = Inr True
   \<and> (k \<notin> set (named_keys E) \<longrightarrow>
        validate_expected ((k, v) # D) E = validate_expected D E)"
proof (intro conjI impI)
  show "validate_expected D [] = Inr True"
    by (simp add: validate_expected.simps expected_loop.simps contains_params_def)
next
  assume "k \<notin> set (named_keys E)"
  then have "\<forall>x \<in> set (named_keys E). map_of ((k, v) # D) x = map_of D x"
    by auto
  then show "validate_expected ((k, v) # D) E = validate_expected D E"
    by (rule validate_expected_agree)
qed

theorem validate_expected_ignores_unnamed_keys_witness:
  "''extra'' \<notin> set (named_keys [kind_key, info_key])
   \<and> validate_expected
       [(''kind'', PStr ''local''), (''info'', PDict [(''path'', PStr ''/tmp'')])]
       [kind_key, info_key] = Inr True
   \<and> validate_expected
       ((''extra'', PInt 1) #
        [(''kind'', PStr ''local''), (''info'', PDict [(''path'', PStr ''/tmp'')])])
       [kind_key, info_key] = Inr True
   \<and> validate
       ((''extra'', PInt 1) #
        [(''kind'', PStr ''local''), (''info'', PDict [(''path'', PStr ''/tmp'')])])
       [kind_key, info_key] None = Inr False
   \<and> validate_expected [(''extra'', PInt 1)] [] = Inr True"
proof -
  let ?D = "[(''kind'', PStr ''local''), (''info'', PDict [(''path'', PStr ''/tmp'')])]"
  have a: "''extra'' \<notin> set (named_keys [kind_key, info_key])"
    by (simp add: example_keys named_keys_def descriptor_names_def)
  have b: "validate_expected ?D [kind_key, info_key] = Inr True"
    by (simp add: example_keys evaluation)
  have c: "validate ((''extra'', PInt 1) # ?D) [kind_key, info_key] None = Inr False"
    by (simp add: example_keys evaluation)
  from validate_expected_ignores_unnamed_keys
         [of "[(''extra'', PInt 1)]" "''extra''" "[kind_key, info_key]" "PInt 1" ]
  have d: "validate_expected [(''extra'', PInt 1)] [] = Inr True" by simp
  from validate_expected_ignores_unnamed_keys
         [of ?D "''extra''" "[kind_key, info_key]" "PInt 1"] a b
  have "validate_expected ((''extra'', PInt 1) # ?D) [kind_key, info_key] = Inr True"
    by simp
  with a b c d show ?thesis by blast
qed

end
